theory Spec2Isabelle
  imports Main
begin

section \<open>Window records and the registry\<close>

text \<open>
  Modelled from the spec: the type \<open>WindowState\<close> is imported from \<open>./types\<close>, a file that
  is not among the sources. The fields are the ones the window manager reads and writes
  (\<open>id\<close>, \<open>isMinimized\<close>, \<open>isMaximized\<close>, \<open>isFocused\<close>, \<open>zIndex\<close>, \<open>x\<close>, \<open>y\<close>,
  \<open>width\<close>, \<open>height\<close>, \<open>title\<close>); everything else a window carries is the opaque
  \<open>payload\<close>, which the manager only copies. The argument of \<open>openWindow\<close> has the type
  \<open>Omit<WindowState, 'zIndex' | 'isFocused'>\<close>: that is the record \<open>descriptor\<close>, and
  \<open>WindowState\<close> extends it by the two omitted fields.

  The fields \<open>id\<close>, \<open>x\<close> and \<open>y\<close> carry the suffix \<open>_w\<close>. Numbers are integers: the
  manager only adds 1 to \<open>topZIndex\<close> and copies the geometry.
\<close>

record 'p descriptor =
  id_w :: string
  title :: string
  x_w :: int
  y_w :: int
  width :: int
  height :: int
  isMinimized :: bool
  isMaximized :: bool
  payload :: 'p

record 'p WindowState = "'p descriptor" +
  zIndex :: int
  isFocused :: bool

text \<open>
  The two pieces of state of \<open>WindowManagerProvider\<close>:
  \<open>useState<WindowState[]>([])\<close> and \<open>useState(100)\<close>.
\<close>

record 'p registry =
  windows :: "'p WindowState list"
  topZIndex :: int

definition init_registry :: "'p registry" where
  "init_registry = \<lparr>windows = [], topZIndex = 100\<rparr>"

section \<open>The eight operations\<close>

text \<open>The object literal \<open>{ ...window, zIndex: newZ, isFocused: true }\<close>.\<close>

definition spread_window :: "'p descriptor \<Rightarrow> int \<Rightarrow> bool \<Rightarrow> 'p WindowState" where
  "spread_window window z f =
     \<lparr>id_w = id_w window, title = title window, x_w = x_w window, y_w = y_w window,
      width = width window, height = height window, isMinimized = isMinimized window,
      isMaximized = isMaximized window, payload = payload window,
      zIndex = z, isFocused = f\<rparr>"

text \<open>
  Each operation is one transition of the pair of states. \<open>openWindow\<close>, \<open>restoreWindow\<close>
  and \<open>focusWindow\<close> run inside the updater of \<open>setTopZIndex\<close>, which computes
  \<open>newZ = currentZ + 1\<close>, passes an updater to \<open>setWindows\<close> and returns \<open>newZ\<close>.
\<close>

definition openWindow :: "'p descriptor \<Rightarrow> 'p registry \<Rightarrow> 'p registry" where
  "openWindow window s =
     (let newZ = topZIndex s + 1; prev = windows s in
      \<lparr>windows =
         (case find (\<lambda>w. id_w w = id_w window) prev of
            Some existing \<Rightarrow>
              if isMinimized existing
              then map (\<lambda>w. if id_w w = id_w window
                             then w\<lparr>isMinimized := False, isFocused := True, zIndex := newZ\<rparr>
                             else w\<lparr>isFocused := False\<rparr>) prev
              else map (\<lambda>w. if id_w w = id_w window
                             then w\<lparr>isFocused := True, zIndex := newZ\<rparr>
                             else w\<lparr>isFocused := False\<rparr>) prev
          | None \<Rightarrow>
              map (\<lambda>w. w\<lparr>isFocused := False\<rparr>) prev @ [spread_window window newZ True]),
       topZIndex = newZ\<rparr>)"

definition closeWindow :: "string \<Rightarrow> 'p registry \<Rightarrow> 'p registry" where
  "closeWindow i s = s\<lparr>windows := filter (\<lambda>w. id_w w \<noteq> i) (windows s)\<rparr>"

definition minimizeWindow :: "string \<Rightarrow> 'p registry \<Rightarrow> 'p registry" where
  "minimizeWindow i s =
     s\<lparr>windows := map (\<lambda>w. if id_w w = i then w\<lparr>isMinimized := True, isFocused := False\<rparr> else w)
                       (windows s)\<rparr>"

definition maximizeWindow :: "string \<Rightarrow> 'p registry \<Rightarrow> 'p registry" where
  "maximizeWindow i s =
     s\<lparr>windows := map (\<lambda>w. if id_w w = i then w\<lparr>isMaximized := \<not> isMaximized w\<rparr> else w)
                       (windows s)\<rparr>"

definition restoreWindow :: "string \<Rightarrow> 'p registry \<Rightarrow> 'p registry" where
  "restoreWindow i s =
     (let newZ = topZIndex s + 1 in
      \<lparr>windows = map (\<lambda>w. if id_w w = i
                          then w\<lparr>isMinimized := False, isFocused := True, zIndex := newZ\<rparr>
                          else w\<lparr>isFocused := False\<rparr>) (windows s),
       topZIndex = newZ\<rparr>)"

definition focusWindow :: "string \<Rightarrow> 'p registry \<Rightarrow> 'p registry" where
  "focusWindow i s =
     (let newZ = topZIndex s + 1 in
      \<lparr>windows = map (\<lambda>w. if id_w w = i
                          then w\<lparr>isFocused := True, zIndex := newZ\<rparr>
                          else w\<lparr>isFocused := False\<rparr>) (windows s),
       topZIndex = newZ\<rparr>)"

definition updateWindowPosition :: "string \<Rightarrow> int \<Rightarrow> int \<Rightarrow> 'p registry \<Rightarrow> 'p registry" where
  "updateWindowPosition i x y s =
     s\<lparr>windows := map (\<lambda>w. if id_w w = i then w\<lparr>x_w := x, y_w := y\<rparr> else w) (windows s)\<rparr>"

definition updateWindowSize :: "string \<Rightarrow> int \<Rightarrow> int \<Rightarrow> 'p registry \<Rightarrow> 'p registry" where
  "updateWindowSize i wd ht s =
     s\<lparr>windows := map (\<lambda>w. if id_w w = i then w\<lparr>width := wd, height := ht\<rparr> else w) (windows s)\<rparr>"

section \<open>Sequences of operations\<close>

datatype 'p operation =
    Open "'p descriptor"
  | Close string
  | Minimize string
  | Maximize string
  | Restore string
  | Focus string
  | UpdatePosition string int int
  | UpdateSize string int int

fun step :: "'p operation \<Rightarrow> 'p registry \<Rightarrow> 'p registry" where
  "step (Open window) s = openWindow window s"
| "step (Close i) s = closeWindow i s"
| "step (Minimize i) s = minimizeWindow i s"
| "step (Maximize i) s = maximizeWindow i s"
| "step (Restore i) s = restoreWindow i s"
| "step (Focus i) s = focusWindow i s"
| "step (UpdatePosition i x y) s = updateWindowPosition i x y s"
| "step (UpdateSize i wd ht) s = updateWindowSize i wd ht s"

text \<open>The operations are applied in the order the event loop receives them.\<close>

fun run :: "'p registry \<Rightarrow> 'p operation list \<Rightarrow> 'p registry" where
  "run s [] = s"
| "run s (opn # ops) = run (step opn s) ops"

text \<open>The operations that go through \<open>setTopZIndex\<close>.\<close>

fun focus_affecting :: "'p operation \<Rightarrow> bool" where
  "focus_affecting (Open _) = True"
| "focus_affecting (Restore _) = True"
| "focus_affecting (Focus _) = True"
| "focus_affecting _ = False"

text \<open>The id an operation names.\<close>

fun target :: "'p operation \<Rightarrow> string" where
  "target (Open window) = id_w window"
| "target (Close i) = i"
| "target (Minimize i) = i"
| "target (Maximize i) = i"
| "target (Restore i) = i"
| "target (Focus i) = i"
| "target (UpdatePosition i _ _) = i"
| "target (UpdateSize i _ _) = i"

text \<open>\<open>openWindow\<close> is the one operation that can add a record.\<close>

fun is_open :: "'p operation \<Rightarrow> bool" where
  "is_open (Open _) = True"
| "is_open _ = False"

section \<open>The accessor of the context\<close>

text \<open>
  \<open>createContext<WindowManagerContextType | null>(null)\<close> and \<open>useContext\<close>: a component
  reads the value of the nearest enclosing provider, and the default of the context when
  no provider encloses it. The enclosing providers are the list of their values, the
  nearest first. \<open>WindowManagerProvider\<close> always provides an object, never \<open>null\<close>.
\<close>

datatype error = Error string

definition useContext :: "'c \<Rightarrow> 'c list \<Rightarrow> 'c" where
  "useContext dflt providers = (case providers of [] \<Rightarrow> dflt | v # _ \<Rightarrow> v)"

definition useWindowManager :: "'c list \<Rightarrow> error + 'c" where
  "useWindowManager providers =
     (case useContext None (map Some providers) of
        None \<Rightarrow> Inl (Error ''useWindowManager must be used within WindowManagerProvider'')
      | Some context \<Rightarrow> Inr context)"

section \<open>Guarded sequences\<close>

text \<open>
  Two calls can leave a record both minimized and focused: \<open>openWindow\<close> of a new id
  whose descriptor has \<open>isMinimized = true\<close>, and \<open>focusWindow\<close> of a minimized record.
  \<open>permitted\<close> holds of an operation in a registry when it is neither of them.
\<close>

fun permitted :: "'p operation \<Rightarrow> 'p registry \<Rightarrow> bool" where
  "permitted (Open window) s =
     (case find (\<lambda>w. id_w w = id_w window) (windows s) of
        None \<Rightarrow> \<not> isMinimized window
      | Some existing \<Rightarrow> True)"
| "permitted (Focus i) s =
     (case find (\<lambda>w. id_w w = i) (windows s) of
        None \<Rightarrow> True
      | Some existing \<Rightarrow> \<not> isMinimized existing)"
| "permitted _ s = True"

fun all_permitted :: "'p registry \<Rightarrow> 'p operation list \<Rightarrow> bool" where
  "all_permitted s [] = True"
| "all_permitted s (opn # ops) = (permitted opn s \<and> all_permitted (step opn s) ops)"

section \<open>Two descriptors for the examples\<close>

definition win_a :: "unit descriptor" where
  "win_a = \<lparr>id_w = ''a'', title = ''Notes'', x_w = 0, y_w = 0, width = 400, height = 300,
            isMinimized = False, isMaximized = False, payload = ()\<rparr>"

definition win_b :: "unit descriptor" where
  "win_b = \<lparr>id_w = ''b'', title = ''Chat'', x_w = 120, y_w = 60, width = 500, height = 350,
            isMinimized = False, isMaximized = False, payload = ()\<rparr>"


section \<open>Invariants of the reachable registries\<close>

subsection \<open>Ids stay distinct\<close>

lemma ids_map_upd:
  "(\<And>w. id_w (f w) = id_w w) \<Longrightarrow> map id_w (map f ws) = map id_w ws"
  by (induction ws) auto

lemma ids_comp_upd:
  "(\<And>w. id_w (f w) = id_w w) \<Longrightarrow> map (id_w \<circ> f) ws = map id_w ws"
  by (induction ws) auto

lemma count_id_le1:
  "distinct (map id_w ws) \<Longrightarrow> length (filter (\<lambda>w. id_w w = i) ws) \<le> 1"
  by (induction ws) (auto simp: filter_empty_conv image_iff)

lemma focused_after_refocus:
  "(\<And>w. isFocused (g w)) \<Longrightarrow>
   filter isFocused (map (\<lambda>w. if id_w w = i then g w else w\<lparr>isFocused := False\<rparr>) ws)
     = map g (filter (\<lambda>w. id_w w = i) ws)"
  by (induction ws) auto

lemma focused_cleared:
  "filter isFocused (map (\<lambda>w. w\<lparr>isFocused := False\<rparr>) ws) = []"
  by (induction ws) auto

lemma find_None_id:
  "find (\<lambda>w. id_w w = i) ws = None \<longleftrightarrow> i \<notin> set (map id_w ws)"
  by (auto simp: find_None_iff)

lemma find_Some_id:
  "find (\<lambda>w. id_w w = i) ws = Some e \<Longrightarrow> i \<in> id_w ` set ws"
  by (induction ws) (auto split: if_splits)

lemma ids_step_open:
  "map id_w (windows (openWindow d s)) =
     (if id_w d \<in> set (map id_w (windows s)) then map id_w (windows s)
      else map id_w (windows s) @ [id_w d])"
  by (auto simp: openWindow_def Let_def spread_window_def find_None_id ids_comp_upd
           split: option.splits dest: find_Some_id)

lemma distinct_step:
  "distinct (map id_w (windows s)) \<Longrightarrow> distinct (map id_w (windows (step opn s)))"
proof (cases opn)
  case (Open d) then show "distinct (map id_w (windows s)) \<Longrightarrow> ?thesis"
    by (simp add: ids_step_open)
next
  case (Close i) then show "distinct (map id_w (windows s)) \<Longrightarrow> ?thesis"
    by (simp add: closeWindow_def distinct_map_filter)
qed (simp_all add: minimizeWindow_def maximizeWindow_def restoreWindow_def focusWindow_def
       updateWindowPosition_def updateWindowSize_def Let_def ids_comp_upd)


subsection \<open>At most one focused record\<close>

lemma focused_mono:
  "(\<And>w. isFocused (f w) \<Longrightarrow> isFocused w) \<Longrightarrow>
   length (filter isFocused (map f ws)) \<le> length (filter isFocused ws)"
  by (induction ws) auto

lemma focused_filter_le:
  "length (filter isFocused (filter P ws)) \<le> length (filter isFocused ws)"
  by (induction ws) auto

lemma focused_open:
  assumes "distinct (map id_w (windows s))"
  shows "filter isFocused (windows (openWindow d s))
           = filter (\<lambda>w. id_w w = id_w d) (windows (openWindow d s))"
proof (cases "find (\<lambda>w. id_w w = id_w d) (windows s)")
  case None
  then have "id_w d \<notin> id_w ` set (windows s)"
    by (simp add: find_None_id)
  then have "filter (\<lambda>w. id_w w = id_w d) (map (\<lambda>w. w\<lparr>isFocused := False\<rparr>) (windows s)) = []"
    by (auto simp: filter_empty_conv image_iff)
  with None show ?thesis
    by (simp add: openWindow_def Let_def focused_cleared spread_window_def)
next
  case (Some e)
  have same_id: "filter (\<lambda>w. id_w w = i) (map (\<lambda>w. if id_w w = i then g w else h w) ws)
                   = map g (filter (\<lambda>w. id_w w = i) ws)"
    if "\<And>w. id_w (g w) = id_w w" "\<And>w. id_w (h w) = id_w w" for i g h and ws :: "'a WindowState list"
    using that by (induction ws) auto
  from Some show ?thesis
    by (simp add: openWindow_def Let_def focused_after_refocus same_id)
qed

lemma count_open:
  assumes "distinct (map id_w (windows s))"
  shows "length (filter (\<lambda>w. id_w w = id_w d) (windows (openWindow d s))) = 1"
proof -
  have d: "distinct (map id_w (windows (openWindow d s)))"
    using distinct_step [OF assms, of "Open d"] by simp
  have "id_w d \<in> set (map id_w (windows (openWindow d s)))"
    by (simp add: ids_step_open)
  then have "filter (\<lambda>w. id_w w = id_w d) (windows (openWindow d s)) \<noteq> []"
    by (auto simp: filter_empty_conv)
  with count_id_le1 [OF d, of "id_w d"] show ?thesis
    by (cases "filter (\<lambda>w. id_w w = id_w d) (windows (openWindow d s))") auto
qed

lemma focused_step:
  assumes "distinct (map id_w (windows s))"
    and "length (filter isFocused (windows s)) \<le> 1"
  shows "length (filter isFocused (windows (step opn s))) \<le> 1"
proof (cases opn)
  case (Open d)
  then show ?thesis
    using focused_open [OF assms(1), of d] count_open [OF assms(1), of d] by simp
next
  case (Close i)
  then show ?thesis
    using focused_filter_le [of "\<lambda>w. id_w w \<noteq> i" "windows s"] assms(2)
    by (simp add: closeWindow_def)
next
  case (Minimize i)
  have "length (filter isFocused (windows (minimizeWindow i s))) \<le> length (filter isFocused (windows s))"
    unfolding minimizeWindow_def by (simp del: length_filter_map) (rule focused_mono, simp split: if_splits)
  with Minimize assms(2) show ?thesis by simp
next
  case (Maximize i)
  have "length (filter isFocused (windows (maximizeWindow i s))) \<le> length (filter isFocused (windows s))"
    unfolding maximizeWindow_def by (simp del: length_filter_map) (rule focused_mono, simp split: if_splits)
  with Maximize assms(2) show ?thesis by simp
next
  case (Restore i)
  then show ?thesis
    using count_id_le1 [OF assms(1), of i]
    by (simp add: restoreWindow_def Let_def focused_after_refocus)
next
  case (Focus i)
  then show ?thesis
    using count_id_le1 [OF assms(1), of i]
    by (simp add: focusWindow_def Let_def focused_after_refocus)
next
  case (UpdatePosition i x y)
  have "length (filter isFocused (windows (updateWindowPosition i x y s))) \<le> length (filter isFocused (windows s))"
    unfolding updateWindowPosition_def by (simp del: length_filter_map) (rule focused_mono, simp split: if_splits)
  with UpdatePosition assms(2) show ?thesis by simp
next
  case (UpdateSize i wd ht)
  have "length (filter isFocused (windows (updateWindowSize i wd ht s))) \<le> length (filter isFocused (windows s))"
    unfolding updateWindowSize_def by (simp del: length_filter_map) (rule focused_mono, simp split: if_splits)
  with UpdateSize assms(2) show ?thesis by simp
qed

lemma distinct_run:
  "distinct (map id_w (windows s)) \<Longrightarrow> distinct (map id_w (windows (run s ops)))"
  by (induction ops arbitrary: s) (simp_all add: distinct_step)

lemma focused_run:
  "distinct (map id_w (windows s)) \<Longrightarrow> length (filter isFocused (windows s)) \<le> 1 \<Longrightarrow>
   length (filter isFocused (windows (run s ops))) \<le> 1"
proof (induction ops arbitrary: s)
  case Nil
  then show ?case by simp
next
  case (Cons opn ops)
  show ?case
    using Cons.IH [OF distinct_step [OF Cons.prems(1)] focused_step [OF Cons.prems]]
    by simp
qed

lemma distinct_reachable: "distinct (map id_w (windows (run init_registry ops)))"
  by (rule distinct_run) (simp add: init_registry_def)

text \<open>
  C1. Whatever sequence of the eight operations is applied to the initial empty registry,
  the registry it yields holds at most one record with \<open>isFocused = true\<close>. Every
  prefix of a sequence is a sequence, so this is the state after each operation.
\<close>

theorem single_focus:
  "length (filter isFocused (windows (run init_registry ops))) \<le> 1"
  by (rule focused_run) (simp_all add: init_registry_def)

section \<open>Operations on an id that no record carries\<close>

lemma map_absent:
  "i \<notin> id_w ` set ws \<Longrightarrow> map (\<lambda>w. if id_w w = i then f w else w) ws = ws"
  by (induction ws) auto

lemma filter_absent:
  "i \<notin> id_w ` set ws \<Longrightarrow> filter (\<lambda>w. id_w w \<noteq> i) ws = ws"
  by (induction ws) auto

lemma map_absent_clear:
  "i \<notin> id_w ` set ws \<Longrightarrow>
   map (\<lambda>w. if id_w w = i then f w else w\<lparr>isFocused := False\<rparr>) ws
     = map (\<lambda>w. w\<lparr>isFocused := False\<rparr>) ws"
  by (induction ws) auto

text \<open>The equations that evaluate a run on concrete descriptors.\<close>

lemmas registry_eval =
  init_registry_def openWindow_def closeWindow_def minimizeWindow_def maximizeWindow_def
  restoreWindow_def focusWindow_def updateWindowPosition_def updateWindowSize_def
  spread_window_def win_a_def win_b_def Let_def

text \<open>
  C6. When no record of the registry carries the id, \<open>closeWindow\<close>, \<open>minimizeWindow\<close>,
  \<open>maximizeWindow\<close>, \<open>updateWindowPosition\<close> and \<open>updateWindowSize\<close> each return the
  registry they were given: the same records and the same \<open>topZIndex\<close>.
\<close>

theorem absent_id_noop:
  "i \<notin> id_w ` set (windows s) \<Longrightarrow>
     closeWindow i s = s \<and> minimizeWindow i s = s \<and> maximizeWindow i s = s \<and>
     updateWindowPosition i x y s = s \<and> updateWindowSize i wd ht s = s"
  by (simp add: closeWindow_def minimizeWindow_def maximizeWindow_def
        updateWindowPosition_def updateWindowSize_def map_absent filter_absent)

theorem absent_id_noop_witness:
  "''b'' \<notin> id_w ` set (windows (run init_registry [Open win_a])) \<and>
   closeWindow ''b'' (run init_registry [Open win_a]) = run init_registry [Open win_a] \<and>
   minimizeWindow ''b'' (run init_registry [Open win_a]) = run init_registry [Open win_a] \<and>
   maximizeWindow ''b'' (run init_registry [Open win_a]) = run init_registry [Open win_a] \<and>
   updateWindowPosition ''b'' 50 80 (run init_registry [Open win_a])
     = run init_registry [Open win_a] \<and>
   updateWindowSize ''b'' 640 480 (run init_registry [Open win_a])
     = run init_registry [Open win_a]"
proof -
  have h: "''b'' \<notin> id_w ` set (windows (run init_registry [Open win_a]))"
    by (simp add: registry_eval)
  show ?thesis
    using h absent_id_noop [OF h, of 50 80 640 480] by (simp add: registry_eval)
qed

text \<open>
  C3, as the code has it. When no record carries the id, \<open>restoreWindow\<close> and
  \<open>focusWindow\<close> still go through \<open>setTopZIndex\<close> and still map over the records: the
  counter grows by 1 and every record takes the \<open>else\<close> branch, which clears
  \<open>isFocused\<close>. All other fields of every record, \<open>zIndex\<close> among them, stay.
\<close>

theorem absent_id_restore_focus:
  "i \<notin> id_w ` set (windows s) \<Longrightarrow>
     restoreWindow i s =
       \<lparr>windows = map (\<lambda>w. w\<lparr>isFocused := False\<rparr>) (windows s), topZIndex = topZIndex s + 1\<rparr> \<and>
     focusWindow i s =
       \<lparr>windows = map (\<lambda>w. w\<lparr>isFocused := False\<rparr>) (windows s), topZIndex = topZIndex s + 1\<rparr>"
  by (simp add: restoreWindow_def focusWindow_def Let_def map_absent_clear)

theorem absent_id_restore_focus_witness:
  "''b'' \<notin> id_w ` set (windows (run init_registry [Open win_a])) \<and>
   restoreWindow ''b'' (run init_registry [Open win_a]) =
     \<lparr>windows = [spread_window win_a 101 False], topZIndex = 102\<rparr> \<and>
   focusWindow ''b'' (run init_registry [Open win_a]) =
     \<lparr>windows = [spread_window win_a 101 False], topZIndex = 102\<rparr>"
proof -
  have h: "''b'' \<notin> id_w ` set (windows (run init_registry [Open win_a]))"
    by (simp add: registry_eval)
  show ?thesis
    using h absent_id_restore_focus [OF h] by (simp add: registry_eval)
qed

text \<open>
  The claim C3 as it is written fails: after \<open>open a\<close>, the id \<open>b\<close> matches no record,
  and both \<open>restoreWindow b\<close> and \<open>focusWindow b\<close> return a registry that differs from
  the one they were given, in \<open>topZIndex\<close> (102 for 101) and in the \<open>isFocused\<close> of the
  record \<open>a\<close>.
\<close>

theorem absent_id_restore_focus_counterexample:
  "''b'' \<notin> id_w ` set (windows (run init_registry [Open win_a])) \<and>
   restoreWindow ''b'' (run init_registry [Open win_a]) \<noteq> run init_registry [Open win_a] \<and>
   focusWindow ''b'' (run init_registry [Open win_a]) \<noteq> run init_registry [Open win_a] \<and>
   topZIndex (run init_registry [Open win_a]) = 101 \<and>
   topZIndex (restoreWindow ''b'' (run init_registry [Open win_a])) = 102 \<and>
   topZIndex (focusWindow ''b'' (run init_registry [Open win_a])) = 102 \<and>
   map isFocused (windows (run init_registry [Open win_a])) = [True] \<and>
   map isFocused (windows (restoreWindow ''b'' (run init_registry [Open win_a]))) = [False] \<and>
   map isFocused (windows (focusWindow ''b'' (run init_registry [Open win_a]))) = [False]"
  by (simp add: registry_eval)

section \<open>Moving and resizing\<close>

text \<open>
  C8. \<open>updateWindowPosition\<close> writes \<open>x\<close> and \<open>y\<close> of the records that carry the id
  and \<open>updateWindowSize\<close> writes their \<open>width\<close> and \<open>height\<close>. Position by position,
  a record with the id is the old record with just these two fields overwritten and
  any other record is the old record; \<open>zIndex\<close>, \<open>isFocused\<close>, \<open>isMinimized\<close> and
  \<open>isMaximized\<close> of every record and \<open>topZIndex\<close> are as before. This holds of every
  registry, so of every registry that contains a record with the id.
\<close>

theorem geometry_only:
  "topZIndex (updateWindowPosition i x y s) = topZIndex s \<and>
   length (windows (updateWindowPosition i x y s)) = length (windows s) \<and>
   (\<forall>k < length (windows s).
      windows (updateWindowPosition i x y s) ! k =
        (if id_w (windows s ! k) = i then (windows s ! k)\<lparr>x_w := x, y_w := y\<rparr>
         else windows s ! k)) \<and>
   map zIndex (windows (updateWindowPosition i x y s)) = map zIndex (windows s) \<and>
   map isFocused (windows (updateWindowPosition i x y s)) = map isFocused (windows s) \<and>
   map isMinimized (windows (updateWindowPosition i x y s)) = map isMinimized (windows s) \<and>
   map isMaximized (windows (updateWindowPosition i x y s)) = map isMaximized (windows s) \<and>
   topZIndex (updateWindowSize i wd ht s) = topZIndex s \<and>
   length (windows (updateWindowSize i wd ht s)) = length (windows s) \<and>
   (\<forall>k < length (windows s).
      windows (updateWindowSize i wd ht s) ! k =
        (if id_w (windows s ! k) = i then (windows s ! k)\<lparr>width := wd, height := ht\<rparr>
         else windows s ! k)) \<and>
   map zIndex (windows (updateWindowSize i wd ht s)) = map zIndex (windows s) \<and>
   map isFocused (windows (updateWindowSize i wd ht s)) = map isFocused (windows s) \<and>
   map isMinimized (windows (updateWindowSize i wd ht s)) = map isMinimized (windows s) \<and>
   map isMaximized (windows (updateWindowSize i wd ht s)) = map isMaximized (windows s)"
proof -
  have keep: "map sel (map (\<lambda>w. if id_w w = i then f w else w) ws) = map sel ws"
    if "\<And>w. sel (f w) = sel w"
    for sel :: "'a WindowState \<Rightarrow> 'b" and f and ws :: "'a WindowState list"
    using that by (induction ws) auto
  show ?thesis
    unfolding updateWindowPosition_def updateWindowSize_def
    by (simp add: keep del: map_map)
qed

theorem geometry_only_witness:
  "id_w (windows (run init_registry [Open win_a, Open win_b]) ! 0) = ''a'' \<and>
   0 < length (windows (run init_registry [Open win_a, Open win_b])) \<and>
   windows (updateWindowPosition ''a'' 50 80 (run init_registry [Open win_a, Open win_b])) ! 0
     = (windows (run init_registry [Open win_a, Open win_b]) ! 0)\<lparr>x_w := 50, y_w := 80\<rparr> \<and>
   windows (updateWindowSize ''a'' 640 480 (run init_registry [Open win_a, Open win_b])) ! 0
     = (windows (run init_registry [Open win_a, Open win_b]) ! 0)\<lparr>width := 640, height := 480\<rparr> \<and>
   map zIndex (windows (updateWindowPosition ''a'' 50 80
       (run init_registry [Open win_a, Open win_b]))) = [101, 102] \<and>
   map isFocused (windows (updateWindowPosition ''a'' 50 80
       (run init_registry [Open win_a, Open win_b]))) = [False, True]"
proof -
  have len: "0 < length (windows (run init_registry [Open win_a, Open win_b]))"
    by (simp add: registry_eval)
  have ida: "id_w (windows (run init_registry [Open win_a, Open win_b]) ! 0) = ''a''"
    by (simp add: registry_eval)
  have zs: "map zIndex (windows (run init_registry [Open win_a, Open win_b])) = [101, 102]"
    by (simp add: registry_eval)
  have fs: "map isFocused (windows (run init_registry [Open win_a, Open win_b])) = [False, True]"
    by (simp add: registry_eval)
  note g = geometry_only [of "''a''" 50 80 "run init_registry [Open win_a, Open win_b]" 640 480]
  from g len ida have "windows (updateWindowPosition ''a'' 50 80
        (run init_registry [Open win_a, Open win_b])) ! 0
     = (windows (run init_registry [Open win_a, Open win_b]) ! 0)\<lparr>x_w := 50, y_w := 80\<rparr>"
    by metis
  moreover from g len ida have "windows (updateWindowSize ''a'' 640 480
        (run init_registry [Open win_a, Open win_b])) ! 0
     = (windows (run init_registry [Open win_a, Open win_b]) ! 0)\<lparr>width := 640, height := 480\<rparr>"
    by metis
  moreover from g zs have "map zIndex (windows (updateWindowPosition ''a'' 50 80
       (run init_registry [Open win_a, Open win_b]))) = [101, 102]"
    by simp
  moreover from g fs have "map isFocused (windows (updateWindowPosition ''a'' 50 80
       (run init_registry [Open win_a, Open win_b]))) = [False, True]"
    by simp
  ultimately show ?thesis using len ida by blast
qed

section \<open>Reopening an id that is open\<close>

lemma other_fields_kept:
  "(\<And>w. sel (f w) = sel w) \<Longrightarrow> (\<And>w. sel (g w) = sel w) \<Longrightarrow>
   map sel (map (\<lambda>w. if id_w w = i then f w else g w) ws) = map sel ws"
  by (induction ws) auto

lemma find_Some_iff_id:
  "i \<in> id_w ` set ws \<Longrightarrow> \<exists>e. find (\<lambda>w. id_w w = i) ws = Some e"
  by (cases "find (\<lambda>w. id_w w = i) ws") (auto simp: find_None_iff)

text \<open>
  C10. When a record of the registry already carries the id of the descriptor,
  \<open>openWindow\<close> keeps \<open>id\<close>, \<open>title\<close>, \<open>x\<close>, \<open>y\<close>, \<open>width\<close>, \<open>height\<close>,
  \<open>isMaximized\<close> and the payload of every record, so only \<open>isMinimized\<close>, \<open>isFocused\<close>
  and \<open>zIndex\<close> can differ; and the result is the same for every descriptor with that
  id, so the other fields of the descriptor are ignored.
\<close>

theorem open_existing_keeps:
  "id_w d \<in> id_w ` set (windows s) \<Longrightarrow>
     length (windows (openWindow d s)) = length (windows s) \<and>
     map (\<lambda>w. (id_w w, title w, x_w w, y_w w, width w, height w, isMaximized w, payload w))
         (windows (openWindow d s))
       = map (\<lambda>w. (id_w w, title w, x_w w, y_w w, width w, height w, isMaximized w, payload w))
           (windows s) \<and>
     (\<forall>d'. id_w d' = id_w d \<longrightarrow> openWindow d' s = openWindow d s)"
proof -
  assume present: "id_w d \<in> id_w ` set (windows s)"
  then obtain e where e: "find (\<lambda>w. id_w w = id_w d) (windows s) = Some e"
    using find_Some_iff_id by blast
  have "length (windows (openWindow d s)) = length (windows s)"
    using e by (simp add: openWindow_def Let_def)
  moreover have "map (\<lambda>w. (id_w w, title w, x_w w, y_w w, width w, height w, isMaximized w, payload w))
         (windows (openWindow d s))
       = map (\<lambda>w. (id_w w, title w, x_w w, y_w w, width w, height w, isMaximized w, payload w))
           (windows s)"
    using e by (simp add: openWindow_def Let_def other_fields_kept del: map_map)
  moreover have "openWindow d' s = openWindow d s" if "id_w d' = id_w d" for d'
    using e that by (simp add: openWindow_def Let_def)
  ultimately show ?thesis by blast
qed

theorem open_existing_keeps_witness:
  "id_w win_b \<in> id_w ` set (windows (run init_registry [Open win_a, Open win_b, Minimize ''b''])) \<and>
   map (\<lambda>w. (id_w w, title w, x_w w, y_w w, width w, height w, isMaximized w, payload w))
     (windows (openWindow (win_b\<lparr>title := ''Other'', x_w := 7, isMaximized := True\<rparr>)
        (run init_registry [Open win_a, Open win_b, Minimize ''b''])))
     = [(''a'', ''Notes'', 0, 0, 400, 300, False, ()), (''b'', ''Chat'', 120, 60, 500, 350, False, ())] \<and>
   openWindow (win_b\<lparr>title := ''Other'', x_w := 7, isMaximized := True\<rparr>)
       (run init_registry [Open win_a, Open win_b, Minimize ''b''])
     = openWindow win_b (run init_registry [Open win_a, Open win_b, Minimize ''b''])"
proof -
  have h: "id_w win_b \<in> id_w ` set (windows (run init_registry [Open win_a, Open win_b, Minimize ''b'']))"
    by (simp add: registry_eval)
  have same: "id_w (win_b\<lparr>title := ''Other'', x_w := 7, isMaximized := True\<rparr>) = id_w win_b"
    by simp
  have old: "map (\<lambda>w. (id_w w, title w, x_w w, y_w w, width w, height w, isMaximized w, payload w))
      (windows (run init_registry [Open win_a, Open win_b, Minimize ''b'']))
     = [(''a'', ''Notes'', 0, 0, 400, 300, False, ()), (''b'', ''Chat'', 120, 60, 500, 350, False, ())]"
    by (simp add: registry_eval)
  note k = open_existing_keeps [OF h]
  note k_fields = k [THEN conjunct2, THEN conjunct1]
  note k_ignored = k [THEN conjunct2, THEN conjunct2, THEN spec, THEN mp]
  have eq: "openWindow (win_b\<lparr>title := ''Other'', x_w := 7, isMaximized := True\<rparr>)
       (run init_registry [Open win_a, Open win_b, Minimize ''b''])
     = openWindow win_b (run init_registry [Open win_a, Open win_b, Minimize ''b''])"
    by (rule k_ignored [OF same])
  have f: "map (\<lambda>w. (id_w w, title w, x_w w, y_w w, width w, height w, isMaximized w, payload w))
     (windows (openWindow win_b (run init_registry [Open win_a, Open win_b, Minimize ''b''])))
     = [(''a'', ''Notes'', 0, 0, 400, 300, False, ()), (''b'', ''Chat'', 120, 60, 500, 350, False, ())]"
    by (rule trans [OF k_fields old])
  show ?thesis
    unfolding eq by (intro conjI) (rule h, rule f, rule refl)
qed

section \<open>Reading the context outside a provider\<close>

text \<open>
  C9. With no enclosing \<open>WindowManagerProvider\<close>, \<open>useContext\<close> returns the default
  \<open>null\<close> and \<open>useWindowManager\<close> throws: the result is the error, not a controller.
\<close>

theorem useWindowManager_outside_provider:
  "useWindowManager [] = Inl (Error ''useWindowManager must be used within WindowManagerProvider'')"
  by (simp add: useWindowManager_def useContext_def)

section \<open>Closing a window\<close>

lemma filter_id_remove1:
  "distinct (map id_w ws) \<Longrightarrow> w \<in> set ws \<Longrightarrow>
   filter (\<lambda>v. id_w v \<noteq> id_w w) ws = remove1 w ws"
proof (induction ws)
  case Nil
  then show ?case by simp
next
  case (Cons a ws)
  show ?case
  proof (cases "a = w")
    case True
    with Cons.prems have "id_w w \<notin> id_w ` set ws" by simp
    then have "filter (\<lambda>v. id_w v \<noteq> id_w w) ws = ws"
      by (rule filter_absent)
    with True show ?thesis by simp
  next
    case False
    with Cons.prems have "w \<in> set ws" and "id_w a \<noteq> id_w w"
      by (auto simp: image_iff)
    with Cons False show ?thesis by simp
  qed
qed

lemma focused_remove1:
  "length (filter isFocused ws) \<le> 1 \<Longrightarrow> w \<in> set ws \<Longrightarrow> isFocused w \<Longrightarrow>
   filter isFocused (remove1 w ws) = []"
proof (induction ws)
  case Nil
  then show ?case by simp
next
  case (Cons a ws)
  show ?case
  proof (cases "a = w")
    case True
    with Cons.prems show ?thesis by simp
  next
    case False
    with Cons.prems have in_rest: "w \<in> set ws" by simp
    with Cons.prems(3) have "filter isFocused ws \<noteq> []"
      by (auto simp: filter_empty_conv)
    then have "1 \<le> length (filter isFocused ws)"
      by (cases "filter isFocused ws") simp_all
    with Cons.prems(1) have unf: "\<not> isFocused a" and "length (filter isFocused ws) \<le> 1"
      by (auto split: if_splits)
    with Cons.IH in_rest Cons.prems(3) have "filter isFocused (remove1 w ws) = []" by simp
    with False unf show ?thesis by simp
  qed
qed

lemma unfocused_remove1:
  "\<not> isFocused w \<Longrightarrow> filter isFocused (remove1 w ws) = filter isFocused ws"
  by (induction ws) auto

lemma focused_reachable:
  "length (filter isFocused (windows (run init_registry ops))) \<le> 1"
  by (rule focused_run) (simp_all add: init_registry_def)

text \<open>
  C7. In a registry reached from the initial one, closing the id of a record \<open>w\<close> of the
  registry yields the same list of records with \<open>w\<close> taken out: no other record is
  removed or altered, and \<open>topZIndex\<close> is as before. No record with that id remains. If
  \<open>w\<close> was focused no record is focused afterwards, and if it was not, the focused
  records are the ones that were focused before.
\<close>

theorem close_removes_only:
  "w \<in> set (windows (run init_registry ops)) \<Longrightarrow>
     windows (closeWindow (id_w w) (run init_registry ops))
       = remove1 w (windows (run init_registry ops)) \<and>
     topZIndex (closeWindow (id_w w) (run init_registry ops))
       = topZIndex (run init_registry ops) \<and>
     id_w w \<notin> id_w ` set (windows (closeWindow (id_w w) (run init_registry ops))) \<and>
     (isFocused w \<longrightarrow>
        filter isFocused (windows (closeWindow (id_w w) (run init_registry ops))) = []) \<and>
     (\<not> isFocused w \<longrightarrow>
        filter isFocused (windows (closeWindow (id_w w) (run init_registry ops)))
          = filter isFocused (windows (run init_registry ops)))"
proof -
  assume w: "w \<in> set (windows (run init_registry ops))"
  have ws: "windows (closeWindow (id_w w) (run init_registry ops))
       = remove1 w (windows (run init_registry ops))"
    using filter_id_remove1 [OF distinct_reachable w] by (simp add: closeWindow_def)
  have "topZIndex (closeWindow (id_w w) (run init_registry ops))
       = topZIndex (run init_registry ops)"
    by (simp add: closeWindow_def)
  moreover have "id_w w \<notin> id_w ` set (windows (closeWindow (id_w w) (run init_registry ops)))"
    by (auto simp: closeWindow_def)
  moreover have "filter isFocused (windows (closeWindow (id_w w) (run init_registry ops))) = []"
    if "isFocused w"
    unfolding ws using focused_remove1 [OF focused_reachable w that] .
  moreover have "filter isFocused (windows (closeWindow (id_w w) (run init_registry ops)))
          = filter isFocused (windows (run init_registry ops))"
    if "\<not> isFocused w"
    unfolding ws using unfocused_remove1 [OF that] .
  ultimately show ?thesis using ws by blast
qed

theorem close_removes_only_witness:
  "spread_window win_b 102 True \<in> set (windows (run init_registry [Open win_a, Open win_b])) \<and>
   windows (closeWindow ''b'' (run init_registry [Open win_a, Open win_b]))
     = [spread_window win_a 101 False] \<and>
   topZIndex (closeWindow ''b'' (run init_registry [Open win_a, Open win_b])) = 102 \<and>
   filter isFocused (windows (closeWindow ''b'' (run init_registry [Open win_a, Open win_b]))) = []"
proof -
  have h: "spread_window win_b 102 True \<in> set (windows (run init_registry [Open win_a, Open win_b]))"
    by (simp add: registry_eval)
  have idb: "id_w (spread_window win_b 102 True) = ''b''"
    by (simp add: spread_window_def win_b_def)
  have foc: "isFocused (spread_window win_b 102 True)"
    by (simp add: spread_window_def)
  have rest: "remove1 (spread_window win_b 102 True) (windows (run init_registry [Open win_a, Open win_b]))
     = [spread_window win_a 101 False]"
    by (simp add: registry_eval)
  have top: "topZIndex (run init_registry [Open win_a, Open win_b]) = 102"
    by (simp add: registry_eval)
  note c = close_removes_only [OF h, unfolded idb]
  from c rest have "windows (closeWindow ''b'' (run init_registry [Open win_a, Open win_b]))
     = [spread_window win_a 101 False]" by simp
  moreover from c top have "topZIndex (closeWindow ''b'' (run init_registry [Open win_a, Open win_b])) = 102"
    by simp
  moreover from c foc have
    "filter isFocused (windows (closeWindow ''b'' (run init_registry [Open win_a, Open win_b]))) = []"
    by blast
  ultimately show ?thesis using h by blast
qed

section \<open>Allocation of zIndex\<close>

lemma top_step:
  "topZIndex (step opn s) = (if focus_affecting opn then topZIndex s + 1 else topZIndex s)"
  by (cases opn)
     (simp_all add: openWindow_def closeWindow_def minimizeWindow_def maximizeWindow_def
        restoreWindow_def focusWindow_def updateWindowPosition_def updateWindowSize_def Let_def)

lemma top_run_mono: "topZIndex s \<le> topZIndex (run s ops)"
proof (induction ops arbitrary: s)
  case Nil
  show ?case by simp
next
  case (Cons opn ops)
  have "topZIndex s \<le> topZIndex (step opn s)" by (simp add: top_step)
  also have "\<dots> \<le> topZIndex (run (step opn s) ops)" by (rule Cons.IH)
  finally show ?case by simp
qed

lemma refocus_target:
  "w \<in> set (map (\<lambda>v. if id_w v = i then g v else h v) ws) \<Longrightarrow> id_w w = i \<Longrightarrow>
   (\<And>v. id_w (h v) = id_w v) \<Longrightarrow> (\<And>v. zIndex (g v) = z) \<Longrightarrow> zIndex w = z"
  by (induction ws) (auto split: if_splits)

lemma refocus_others:
  "(\<And>v. id_w (g v) = id_w v) \<Longrightarrow> (\<And>v. id_w (h v) = id_w v) \<Longrightarrow>
   filter (\<lambda>w. id_w w \<noteq> i) (map (\<lambda>v. if id_w v = i then g v else h v) ws)
     = map h (filter (\<lambda>w. id_w w \<noteq> i) ws)"
  by (induction ws) auto

lemma z_assigned:
  assumes "focus_affecting opn" and "w \<in> set (windows (step opn s))" and "id_w w = target opn"
  shows "zIndex w = topZIndex s + 1"
proof (cases opn)
  case (Open d)
  show ?thesis
  proof (cases "find (\<lambda>w. id_w w = id_w d) (windows s)")
    case None
    then have "id_w d \<notin> id_w ` set (windows s)" by (simp add: find_None_id)
    then have absent: "target opn \<notin> id_w ` set (windows s)"
      using Open by simp
    from assms(2) Open None
    have mem: "w \<in> set (map (\<lambda>w. w\<lparr>isFocused := False\<rparr>) (windows s)
                  @ [spread_window d (topZIndex s + 1) True])"
      by (simp add: openWindow_def Let_def)
    have "w \<notin> set (map (\<lambda>w. w\<lparr>isFocused := False\<rparr>) (windows s))"
    proof
      assume "w \<in> set (map (\<lambda>w. w\<lparr>isFocused := False\<rparr>) (windows s))"
      then obtain v where v: "v \<in> set (windows s)" and wv: "w = v\<lparr>isFocused := False\<rparr>"
        by auto
      from wv have "id_w w = id_w v" by simp
      with v have "id_w w \<in> id_w ` set (windows s)" by simp
      with absent assms(3) show False by simp
    qed
    with mem have "w = spread_window d (topZIndex s + 1) True"
      by simp
    then show ?thesis by (simp add: spread_window_def)
  next
    case (Some e)
    show ?thesis
    proof (cases "isMinimized e")
      case True
      with assms(2) Open Some
      have "w \<in> set (map (\<lambda>w. if id_w w = id_w d
                then w\<lparr>isMinimized := False, isFocused := True, zIndex := topZIndex s + 1\<rparr>
                else w\<lparr>isFocused := False\<rparr>) (windows s))"
        by (simp add: openWindow_def Let_def)
      then show ?thesis
        by (rule refocus_target) (use assms(3) Open in simp_all)
    next
      case False
      with assms(2) Open Some
      have "w \<in> set (map (\<lambda>w. if id_w w = id_w d
                then w\<lparr>isFocused := True, zIndex := topZIndex s + 1\<rparr>
                else w\<lparr>isFocused := False\<rparr>) (windows s))"
        by (simp add: openWindow_def Let_def)
      then show ?thesis
        by (rule refocus_target) (use assms(3) Open in simp_all)
    qed
  qed
next
  case (Restore i)
  with assms(2)
  have "w \<in> set (map (\<lambda>w. if id_w w = i
            then w\<lparr>isMinimized := False, isFocused := True, zIndex := topZIndex s + 1\<rparr>
            else w\<lparr>isFocused := False\<rparr>) (windows s))"
    by (simp add: restoreWindow_def Let_def)
  then show ?thesis
    by (rule refocus_target) (use assms(3) Restore in simp_all)
next
  case (Focus i)
  with assms(2)
  have "w \<in> set (map (\<lambda>w. if id_w w = i
            then w\<lparr>isFocused := True, zIndex := topZIndex s + 1\<rparr>
            else w\<lparr>isFocused := False\<rparr>) (windows s))"
    by (simp add: focusWindow_def Let_def)
  then show ?thesis
    by (rule refocus_target) (use assms(3) Focus in simp_all)
qed (use assms(1) in simp_all)

lemma z_others:
  assumes "focus_affecting opn"
  shows "map zIndex (filter (\<lambda>w. id_w w \<noteq> target opn) (windows (step opn s)))
           = map zIndex (filter (\<lambda>w. id_w w \<noteq> target opn) (windows s))"
proof (cases opn)
  case (Open d)
  show ?thesis
  proof (cases "find (\<lambda>w. id_w w = id_w d) (windows s)")
    case None
    have "filter (\<lambda>w. id_w w \<noteq> id_w d) (map (\<lambda>w. w\<lparr>isFocused := False\<rparr>) (windows s))
            = map (\<lambda>w. w\<lparr>isFocused := False\<rparr>) (filter (\<lambda>w. id_w w \<noteq> id_w d) (windows s))"
      by (induction "windows s") (auto simp: filter_map comp_def)
    with None Open show ?thesis
      by (simp add: openWindow_def Let_def spread_window_def comp_def)
  next
    case (Some e)
    with Open show ?thesis
      by (simp add: openWindow_def Let_def refocus_others comp_def)
  qed
next
  case (Restore i)
  then show ?thesis
    by (simp add: restoreWindow_def Let_def refocus_others comp_def)
next
  case (Focus i)
  then show ?thesis
    by (simp add: focusWindow_def Let_def refocus_others comp_def)
qed (use assms in simp_all)

text \<open>
  Where a record of the next registry comes from: either the operation went through
  \<open>setTopZIndex\<close> and wrote the new value into it, or it has the id and the \<open>zIndex\<close>
  of a record of the registry before.
\<close>

lemma origin_map:
  assumes "w' \<in> set (map f ws)"
    and "\<And>v. id_w (f v) = id_w v"
    and "\<And>v. zIndex (f v) = zIndex v \<or> (P \<and> id_w v = i \<and> zIndex (f v) = z)"
  shows "(P \<and> id_w w' = i \<and> zIndex w' = z) \<or> (\<exists>w\<in>set ws. id_w w' = id_w w \<and> zIndex w' = zIndex w)"
proof -
  from assms(1) obtain v where v: "v \<in> set ws" and w': "w' = f v" by auto
  from assms(3) [of v] show ?thesis
  proof
    assume "zIndex (f v) = zIndex v"
    with v w' assms(2) [of v] show ?thesis by blast
  next
    assume "P \<and> id_w v = i \<and> zIndex (f v) = z"
    with w' assms(2) [of v] show ?thesis by simp
  qed
qed

lemma step_origin:
  assumes "w' \<in> set (windows (step opn s))"
  shows "(focus_affecting opn \<and> id_w w' = target opn \<and> zIndex w' = topZIndex s + 1)
       \<or> (\<exists>w\<in>set (windows s). id_w w' = id_w w \<and> zIndex w' = zIndex w)"
proof (cases opn)
  case (Open d)
  show ?thesis
  proof (cases "find (\<lambda>w. id_w w = id_w d) (windows s)")
    case None
    with assms Open
    have mem: "w' \<in> set (map (\<lambda>w. w\<lparr>isFocused := False\<rparr>) (windows s)
                  @ [spread_window d (topZIndex s + 1) True])"
      by (simp add: openWindow_def Let_def)
    show ?thesis
    proof (cases "w' = spread_window d (topZIndex s + 1) True")
      case True
      with Open show ?thesis by (simp add: spread_window_def)
    next
      case False
      with mem have "w' \<in> set (map (\<lambda>w. w\<lparr>isFocused := False\<rparr>) (windows s))" by simp
      then have "(False \<and> id_w w' = target opn \<and> zIndex w' = topZIndex s + 1)
         \<or> (\<exists>w\<in>set (windows s). id_w w' = id_w w \<and> zIndex w' = zIndex w)"
        by (rule origin_map) simp_all
      then show ?thesis by simp
    qed
  next
    case (Some e)
    show ?thesis
    proof (cases "isMinimized e")
      case True
      with assms Open Some
      have "w' \<in> set (map (\<lambda>w. if id_w w = id_w d
                then w\<lparr>isMinimized := False, isFocused := True, zIndex := topZIndex s + 1\<rparr>
                else w\<lparr>isFocused := False\<rparr>) (windows s))"
        by (simp add: openWindow_def Let_def)
      then have "(True \<and> id_w w' = id_w d \<and> zIndex w' = topZIndex s + 1)
         \<or> (\<exists>w\<in>set (windows s). id_w w' = id_w w \<and> zIndex w' = zIndex w)"
        by (rule origin_map) simp_all
      with Open show ?thesis by simp
    next
      case False
      with assms Open Some
      have "w' \<in> set (map (\<lambda>w. if id_w w = id_w d
                then w\<lparr>isFocused := True, zIndex := topZIndex s + 1\<rparr>
                else w\<lparr>isFocused := False\<rparr>) (windows s))"
        by (simp add: openWindow_def Let_def)
      then have "(True \<and> id_w w' = id_w d \<and> zIndex w' = topZIndex s + 1)
         \<or> (\<exists>w\<in>set (windows s). id_w w' = id_w w \<and> zIndex w' = zIndex w)"
        by (rule origin_map) simp_all
      with Open show ?thesis by simp
    qed
  qed
next
  case (Close i)
  with assms have "w' \<in> set (windows s)" by (simp add: closeWindow_def)
  then show ?thesis by blast
next
  case (Minimize i)
  with assms
  have "w' \<in> set (map (\<lambda>w. if id_w w = i then w\<lparr>isMinimized := True, isFocused := False\<rparr> else w)
                     (windows s))"
    by (simp add: minimizeWindow_def)
  then have "(False \<and> id_w w' = i \<and> zIndex w' = 0)
     \<or> (\<exists>w\<in>set (windows s). id_w w' = id_w w \<and> zIndex w' = zIndex w)"
    by (rule origin_map) simp_all
  then show ?thesis by simp
next
  case (Maximize i)
  with assms
  have "w' \<in> set (map (\<lambda>w. if id_w w = i then w\<lparr>isMaximized := \<not> isMaximized w\<rparr> else w)
                     (windows s))"
    by (simp add: maximizeWindow_def)
  then have "(False \<and> id_w w' = i \<and> zIndex w' = 0)
     \<or> (\<exists>w\<in>set (windows s). id_w w' = id_w w \<and> zIndex w' = zIndex w)"
    by (rule origin_map) simp_all
  then show ?thesis by simp
next
  case (Restore i)
  with assms
  have "w' \<in> set (map (\<lambda>w. if id_w w = i
            then w\<lparr>isMinimized := False, isFocused := True, zIndex := topZIndex s + 1\<rparr>
            else w\<lparr>isFocused := False\<rparr>) (windows s))"
    by (simp add: restoreWindow_def Let_def)
  then have "(True \<and> id_w w' = i \<and> zIndex w' = topZIndex s + 1)
     \<or> (\<exists>w\<in>set (windows s). id_w w' = id_w w \<and> zIndex w' = zIndex w)"
    by (rule origin_map) simp_all
  with Restore show ?thesis by simp
next
  case (Focus i)
  with assms
  have "w' \<in> set (map (\<lambda>w. if id_w w = i
            then w\<lparr>isFocused := True, zIndex := topZIndex s + 1\<rparr>
            else w\<lparr>isFocused := False\<rparr>) (windows s))"
    by (simp add: focusWindow_def Let_def)
  then have "(True \<and> id_w w' = i \<and> zIndex w' = topZIndex s + 1)
     \<or> (\<exists>w\<in>set (windows s). id_w w' = id_w w \<and> zIndex w' = zIndex w)"
    by (rule origin_map) simp_all
  with Focus show ?thesis by simp
next
  case (UpdatePosition i x y)
  with assms
  have "w' \<in> set (map (\<lambda>w. if id_w w = i then w\<lparr>x_w := x, y_w := y\<rparr> else w) (windows s))"
    by (simp add: updateWindowPosition_def)
  then have "(False \<and> id_w w' = i \<and> zIndex w' = 0)
     \<or> (\<exists>w\<in>set (windows s). id_w w' = id_w w \<and> zIndex w' = zIndex w)"
    by (rule origin_map) simp_all
  then show ?thesis by simp
next
  case (UpdateSize i wd ht)
  with assms
  have "w' \<in> set (map (\<lambda>w. if id_w w = i then w\<lparr>width := wd, height := ht\<rparr> else w) (windows s))"
    by (simp add: updateWindowSize_def)
  then have "(False \<and> id_w w' = i \<and> zIndex w' = 0)
     \<or> (\<exists>w\<in>set (windows s). id_w w' = id_w w \<and> zIndex w' = zIndex w)"
    by (rule origin_map) simp_all
  then show ?thesis by simp
qed

lemma z_bound_step:
  assumes "\<forall>w\<in>set (windows s). zIndex w \<le> topZIndex s"
  shows "\<forall>w\<in>set (windows (step opn s)). zIndex w \<le> topZIndex (step opn s)"
proof
  fix w' assume "w' \<in> set (windows (step opn s))"
  from step_origin [OF this] show "zIndex w' \<le> topZIndex (step opn s)"
  proof
    assume "focus_affecting opn \<and> id_w w' = target opn \<and> zIndex w' = topZIndex s + 1"
    then show ?thesis by (simp add: top_step)
  next
    assume "\<exists>w\<in>set (windows s). id_w w' = id_w w \<and> zIndex w' = zIndex w"
    then obtain w where "w \<in> set (windows s)" and "zIndex w' = zIndex w" by blast
    with assms have "zIndex w' \<le> topZIndex s" by simp
    then show ?thesis by (simp add: top_step)
  qed
qed

lemma z_bound_run:
  "\<forall>w\<in>set (windows s). zIndex w \<le> topZIndex s \<Longrightarrow>
   \<forall>w\<in>set (windows (run s ops)). zIndex w \<le> topZIndex (run s ops)"
proof (induction ops arbitrary: s)
  case Nil
  then show ?case by simp
next
  case (Cons opn ops)
  from Cons.IH [OF z_bound_step [OF Cons.prems]] show ?case by simp
qed

lemma z_bound_reachable:
  "w \<in> set (windows (run init_registry ops)) \<Longrightarrow> zIndex w \<le> topZIndex (run init_registry ops)"
proof -
  have "\<forall>w\<in>set (windows (run init_registry ops)). zIndex w \<le> topZIndex (run init_registry ops)"
    by (rule z_bound_run) (simp add: init_registry_def)
  then show "w \<in> set (windows (run init_registry ops)) \<Longrightarrow> ?thesis" by blast
qed

lemma same_id_same_record:
  "distinct (map id_w ws) \<Longrightarrow> v \<in> set ws \<Longrightarrow> w \<in> set ws \<Longrightarrow> id_w v = id_w w \<Longrightarrow> v = w"
  by (simp add: distinct_map inj_on_def)

lemma z_never_decreases:
  assumes "w \<in> set (windows (run init_registry ops))"
    and "w' \<in> set (windows (step opn (run init_registry ops)))"
    and "id_w w' = id_w w"
  shows "zIndex w \<le> zIndex w'"
  using step_origin [OF assms(2)]
proof
  assume "focus_affecting opn \<and> id_w w' = target opn \<and> zIndex w' = topZIndex (run init_registry ops) + 1"
  with z_bound_reachable [OF assms(1)] show ?thesis by simp
next
  assume "\<exists>v\<in>set (windows (run init_registry ops)). id_w w' = id_w v \<and> zIndex w' = zIndex v"
  then obtain v where v: "v \<in> set (windows (run init_registry ops))"
    and "id_w w' = id_w v" and z: "zIndex w' = zIndex v" by blast
  with assms(3) have "id_w v = id_w w" by simp
  from same_id_same_record [OF distinct_reachable v assms(1) this] z show ?thesis by simp
qed

lemma ids_kept:
  assumes "focus_affecting opn"
  shows "set (map id_w (windows s)) \<subseteq> set (map id_w (windows (step opn s)))"
proof (cases opn)
  case (Open d)
  then show ?thesis by (auto simp: ids_step_open)
next
  case (Restore i)
  then show ?thesis by (simp add: restoreWindow_def Let_def ids_comp_upd)
next
  case (Focus i)
  then show ?thesis by (simp add: focusWindow_def Let_def ids_comp_upd)
qed (use assms in simp_all)

lemma z_later_greater:
  assumes "focus_affecting A" and "focus_affecting B"
    and "wa \<in> set (windows (step A s))" and "id_w wa = target A"
    and "wb \<in> set (windows (step B (run (step A s) mid)))" and "id_w wb = target B"
  shows "zIndex wa < zIndex wb"
proof -
  have "zIndex wa = topZIndex s + 1"
    using assms(1,3,4) by (rule z_assigned)
  also have "\<dots> = topZIndex (step A s)"
    using assms(1) by (simp add: top_step)
  also have "\<dots> \<le> topZIndex (run (step A s) mid)"
    by (rule top_run_mono)
  also have "\<dots> < topZIndex (run (step A s) mid) + 1" by simp
  also have "\<dots> = zIndex wb"
    using z_assigned [OF assms(2,5,6)] by simp
  finally show ?thesis .
qed

lemma ids_after:
  assumes "focus_affecting opn"
  shows "set (map id_w (windows (step opn s)))
           = set (map id_w (windows s)) \<union> (if is_open opn then {target opn} else {})"
proof (cases opn)
  case (Open d)
  then show ?thesis by (auto simp: ids_step_open)
next
  case (Restore i)
  then show ?thesis by (simp add: restoreWindow_def Let_def ids_comp_upd)
next
  case (Focus i)
  then show ?thesis by (simp add: focusWindow_def Let_def ids_comp_upd)
qed (use assms in simp_all)

text \<open>
  The records that carry the id an operation through \<open>setTopZIndex\<close> names, after the
  operation: there is exactly one, holding the new value, when the operation is an
  \<open>open\<close> or the id was in the registry, and none otherwise.
\<close>

lemma z_of_target:
  assumes fa: "focus_affecting opn" and d: "distinct (map id_w (windows s))"
  shows "map zIndex (filter (\<lambda>w. id_w w = target opn) (windows (step opn s)))
           = (if is_open opn \<or> target opn \<in> set (map id_w (windows s))
              then [topZIndex s + 1] else [])"
proof -
  have len: "length (filter (\<lambda>w. id_w w = target opn) (windows (step opn s))) \<le> 1"
    using distinct_step [OF d] by (rule count_id_le1)
  have mem: "target opn \<in> set (map id_w (windows (step opn s)))
               \<longleftrightarrow> is_open opn \<or> target opn \<in> set (map id_w (windows s))"
    unfolding ids_after [OF fa] by simp
  show ?thesis
  proof (cases "is_open opn \<or> target opn \<in> set (map id_w (windows s))")
    case True
    with mem have "target opn \<in> set (map id_w (windows (step opn s)))" by blast
    then obtain w where w: "w \<in> set (windows (step opn s))" and idw: "id_w w = target opn"
      by auto
    then have "w \<in> set (filter (\<lambda>w. id_w w = target opn) (windows (step opn s)))" by simp
    with len have "filter (\<lambda>w. id_w w = target opn) (windows (step opn s)) = [w]"
      by (cases "filter (\<lambda>w. id_w w = target opn) (windows (step opn s))") auto
    moreover have "zIndex w = topZIndex s + 1"
      using fa w idw by (rule z_assigned)
    ultimately show ?thesis using True by simp
  next
    case False
    with mem have "target opn \<notin> id_w ` set (windows (step opn s))" by simp
    then have "filter (\<lambda>w. id_w w = target opn) (windows (step opn s)) = []"
      by (auto simp: filter_empty_conv image_iff)
    with False show ?thesis by simp
  qed
qed

text \<open>
  C4. Let \<open>s\<close> be a registry reached from the initial one and \<open>A\<close>, \<open>B\<close> operations that
  go through \<open>setTopZIndex\<close> (\<open>open\<close> in each of its three cases, \<open>restore\<close>,
  \<open>focus\<close>). Then \<open>A\<close> adds exactly 1 to \<open>topZIndex\<close>; every record with the id that
  \<open>A\<close> names has the new value afterwards, and no id is lost; the \<open>zIndex\<close> values of
  the records with another id are as before, in the same order; the new value is
  strictly above every \<open>zIndex\<close> in \<open>s\<close>, so it was not in use. If \<open>B\<close> is executed
  after \<open>A\<close>, with any operations \<open>mid\<close> in between, the counter after \<open>B\<close> is strictly
  above the counter after \<open>A\<close>, and the \<open>zIndex\<close> that \<open>B\<close> assigns is strictly above the
  one that \<open>A\<close> assigned. No operation \<open>opn\<close> whatever lowers the \<open>zIndex\<close> of a
  record: the record with the same id afterwards has a \<open>zIndex\<close> at least as large.
  The affected record is there: after \<open>A\<close> the records with the id that \<open>A\<close> names are
  exactly one record, whose \<open>zIndex\<close> is the counter after the increment, whenever \<open>A\<close>
  is an \<open>open\<close> (the id new or not) or the id was in the registry, and there is none
  otherwise; likewise for \<open>B\<close>, which also adds exactly 1 to the counter.
\<close>

theorem z_allocation:
  assumes "focus_affecting A" and "focus_affecting B" and "s = run init_registry pre"
  shows
    "topZIndex (step A s) = topZIndex s + 1 \<and>
     (\<forall>w\<in>set (windows (step A s)). id_w w = target A \<longrightarrow> zIndex w = topZIndex s + 1) \<and>
     set (map id_w (windows s)) \<subseteq> set (map id_w (windows (step A s))) \<and>
     map zIndex (filter (\<lambda>w. id_w w \<noteq> target A) (windows (step A s)))
       = map zIndex (filter (\<lambda>w. id_w w \<noteq> target A) (windows s)) \<and>
     (\<forall>w\<in>set (windows s). zIndex w < topZIndex s + 1) \<and>
     topZIndex (step A s) < topZIndex (step B (run (step A s) mid)) \<and>
     (\<forall>wa\<in>set (windows (step A s)). \<forall>wb\<in>set (windows (step B (run (step A s) mid))).
        id_w wa = target A \<longrightarrow> id_w wb = target B \<longrightarrow> zIndex wa < zIndex wb) \<and>
     (\<forall>w\<in>set (windows s). \<forall>w'\<in>set (windows (step opn s)).
        id_w w' = id_w w \<longrightarrow> zIndex w \<le> zIndex w') \<and>
     map zIndex (filter (\<lambda>w. id_w w = target A) (windows (step A s)))
       = (if is_open A \<or> target A \<in> set (map id_w (windows s))
          then [topZIndex s + 1] else []) \<and>
     topZIndex (step B (run (step A s) mid)) = topZIndex (run (step A s) mid) + 1 \<and>
     map zIndex (filter (\<lambda>w. id_w w = target B) (windows (step B (run (step A s) mid))))
       = (if is_open B \<or> target B \<in> set (map id_w (windows (run (step A s) mid)))
          then [topZIndex (run (step A s) mid) + 1] else [])"
proof -
  have ds: "distinct (map id_w (windows s))"
    unfolding assms(3) by (rule distinct_reachable)
  have c1: "topZIndex (step A s) = topZIndex s + 1"
    using assms(1) by (simp add: top_step)
  have c2: "\<forall>w\<in>set (windows (step A s)). id_w w = target A \<longrightarrow> zIndex w = topZIndex s + 1"
    using z_assigned [OF assms(1)] by blast
  have c3: "set (map id_w (windows s)) \<subseteq> set (map id_w (windows (step A s)))"
    using assms(1) by (rule ids_kept)
  have c4: "map zIndex (filter (\<lambda>w. id_w w \<noteq> target A) (windows (step A s)))
       = map zIndex (filter (\<lambda>w. id_w w \<noteq> target A) (windows s))"
    using assms(1) by (rule z_others)
  have c5: "\<forall>w\<in>set (windows s). zIndex w < topZIndex s + 1"
  proof
    fix w assume "w \<in> set (windows s)"
    with assms(3) have "zIndex w \<le> topZIndex s"
      using z_bound_reachable by blast
    then show "zIndex w < topZIndex s + 1" by simp
  qed
  have "topZIndex (step A s) \<le> topZIndex (run (step A s) mid)"
    by (rule top_run_mono)
  also have "\<dots> < topZIndex (step B (run (step A s) mid))"
    using assms(2) by (simp add: top_step)
  finally have c6: "topZIndex (step A s) < topZIndex (step B (run (step A s) mid))" .
  have c7: "\<forall>wa\<in>set (windows (step A s)). \<forall>wb\<in>set (windows (step B (run (step A s) mid))).
        id_w wa = target A \<longrightarrow> id_w wb = target B \<longrightarrow> zIndex wa < zIndex wb"
    using z_later_greater [OF assms(1,2)] by blast
  have c8: "\<forall>w\<in>set (windows s). \<forall>w'\<in>set (windows (step opn s)).
        id_w w' = id_w w \<longrightarrow> zIndex w \<le> zIndex w'"
    unfolding assms(3) using z_never_decreases by blast
  have c9: "map zIndex (filter (\<lambda>w. id_w w = target A) (windows (step A s)))
       = (if is_open A \<or> target A \<in> set (map id_w (windows s))
          then [topZIndex s + 1] else [])"
    using assms(1) ds by (rule z_of_target)
  have c10: "topZIndex (step B (run (step A s) mid)) = topZIndex (run (step A s) mid) + 1"
    using assms(2) by (simp add: top_step)
  have "distinct (map id_w (windows (run (step A s) mid)))"
    using distinct_step [OF ds] by (rule distinct_run)
  with assms(2)
  have c11: "map zIndex (filter (\<lambda>w. id_w w = target B) (windows (step B (run (step A s) mid))))
       = (if is_open B \<or> target B \<in> set (map id_w (windows (run (step A s) mid)))
          then [topZIndex (run (step A s) mid) + 1] else [])"
    by (rule z_of_target)
  from c1 c2 c3 c4 c5 c6 c7 c8 c9 c10 c11 show ?thesis by (intro conjI)
qed

theorem z_allocation_witness:
  "focus_affecting (Open win_b) \<and>
   focus_affecting (Restore ''b'' :: unit operation) \<and>
   ''b'' \<notin> set (map id_w (windows (run init_registry [Open win_a]))) \<and>
   topZIndex (run init_registry [Open win_a]) = 101 \<and>
   topZIndex (step (Open win_b) (run init_registry [Open win_a])) = 102 \<and>
   map zIndex (filter (\<lambda>w. id_w w = ''b'')
      (windows (step (Open win_b) (run init_registry [Open win_a])))) = [102] \<and>
   map zIndex (filter (\<lambda>w. id_w w \<noteq> ''b'')
      (windows (step (Open win_b) (run init_registry [Open win_a])))) = [101] \<and>
   topZIndex (step (Restore ''b'')
      (run (step (Open win_b) (run init_registry [Open win_a])) [Minimize ''b''])) = 103 \<and>
   map zIndex (filter (\<lambda>w. id_w w = ''b'')
      (windows (step (Restore ''b'')
         (run (step (Open win_b) (run init_registry [Open win_a])) [Minimize ''b''])))) = [103] \<and>
   topZIndex (step (Open win_b) (run init_registry [Open win_a]))
     < topZIndex (step (Restore ''b'')
         (run (step (Open win_b) (run init_registry [Open win_a])) [Minimize ''b'']))"
proof -
  have a: "focus_affecting (Open win_b)" by simp
  have b: "focus_affecting (Restore ''b'' :: unit operation)" by simp
  note z = z_allocation [OF a b refl, of "[Open win_a]" "[Minimize ''b'']" "Close ''a''"]
  note z1 = z [THEN conjunct1]
  note z4 = z [THEN conjunct2, THEN conjunct2, THEN conjunct2, THEN conjunct1]
  note z6 = z [THEN conjunct2, THEN conjunct2, THEN conjunct2, THEN conjunct2, THEN conjunct2,
               THEN conjunct1]
  note z9 = z [THEN conjunct2, THEN conjunct2, THEN conjunct2, THEN conjunct2, THEN conjunct2,
               THEN conjunct2, THEN conjunct2, THEN conjunct2, THEN conjunct1]
  note z10 = z [THEN conjunct2, THEN conjunct2, THEN conjunct2, THEN conjunct2, THEN conjunct2,
               THEN conjunct2, THEN conjunct2, THEN conjunct2, THEN conjunct2, THEN conjunct1]
  note z11 = z [THEN conjunct2, THEN conjunct2, THEN conjunct2, THEN conjunct2, THEN conjunct2,
               THEN conjunct2, THEN conjunct2, THEN conjunct2, THEN conjunct2, THEN conjunct2]
  have ta: "target (Open win_b) = ''b''"
    by (simp add: win_b_def)
  have tb: "target (Restore ''b'' :: unit operation) = ''b''"
    by simp
  have new: "''b'' \<notin> set (map id_w (windows (run init_registry [Open win_a])))"
    by (simp add: registry_eval)
  have top: "topZIndex (run init_registry [Open win_a]) = 101"
    by (simp add: registry_eval)
  have old: "map zIndex (filter (\<lambda>w. id_w w \<noteq> ''b'') (windows (run init_registry [Open win_a])))
               = [101]"
    by (simp add: registry_eval)
  have topm: "topZIndex (run (step (Open win_b) (run init_registry [Open win_a])) [Minimize ''b''])
               = 102"
    by (simp add: registry_eval)
  have present: "''b'' \<in> set (map id_w
      (windows (run (step (Open win_b) (run init_registry [Open win_a])) [Minimize ''b''])))"
    by (simp add: registry_eval)
  have r1: "topZIndex (step (Open win_b) (run init_registry [Open win_a])) = 102"
    unfolding z1 top by simp
  have r9: "map zIndex (filter (\<lambda>w. id_w w = ''b'')
      (windows (step (Open win_b) (run init_registry [Open win_a])))) = [102]"
    using z9 [unfolded ta top] by simp
  have r4: "map zIndex (filter (\<lambda>w. id_w w \<noteq> ''b'')
      (windows (step (Open win_b) (run init_registry [Open win_a])))) = [101]"
    using z4 [unfolded ta old] .
  have r10: "topZIndex (step (Restore ''b'')
      (run (step (Open win_b) (run init_registry [Open win_a])) [Minimize ''b''])) = 103"
    unfolding z10 topm by simp
  have r11: "map zIndex (filter (\<lambda>w. id_w w = ''b'')
      (windows (step (Restore ''b'')
         (run (step (Open win_b) (run init_registry [Open win_a])) [Minimize ''b''])))) = [103]"
    using z11 [unfolded tb topm] present by simp
  from a b new top r1 r9 r4 r10 r11 z6 show ?thesis by (intro conjI)
qed

section \<open>What openWindow guarantees\<close>

lemma open_highest:
  assumes "w \<in> set (windows (openWindow d (run init_registry ops)))"
    and "v \<in> set (windows (openWindow d (run init_registry ops)))"
    and "id_w w = id_w d" and "id_w v \<noteq> id_w d"
  shows "zIndex v < zIndex w"
proof -
  have fa: "focus_affecting (Open d)" by simp
  from assms(1) have "w \<in> set (windows (step (Open d) (run init_registry ops)))" by simp
  from z_assigned [OF fa this] assms(3)
  have zw: "zIndex w = topZIndex (run init_registry ops) + 1" by simp
  from assms(2) have "v \<in> set (windows (step (Open d) (run init_registry ops)))" by simp
  from step_origin [OF this] assms(4)
  obtain u where "u \<in> set (windows (run init_registry ops))" and "zIndex v = zIndex u"
    by auto
  with z_bound_reachable [of u ops] have "zIndex v \<le> topZIndex (run init_registry ops)"
    by simp
  with zw show ?thesis by simp
qed

text \<open>
  C5. After \<open>openWindow\<close> in a registry reached from the initial one: exactly one record
  carries the id of the descriptor; the focused records are exactly the records with
  that id, so exactly that one record is focused; and its \<open>zIndex\<close> is strictly above
  the \<open>zIndex\<close> of every record with another id. For the sequence open \<open>a\<close>, minimize
  \<open>a\<close>, open \<open>a\<close>, with any two descriptors whose id is \<open>a\<close>, the registry is one
  record with id \<open>a\<close>, not minimized and focused. The ids are pairwise distinct after
  every sequence of \<open>open\<close> calls, and after every sequence of the eight operations.
\<close>

theorem open_guarantees:
  "length (filter (\<lambda>w. id_w w = id_w d) (windows (openWindow d (run init_registry ops)))) = 1 \<and>
   filter isFocused (windows (openWindow d (run init_registry ops)))
     = filter (\<lambda>w. id_w w = id_w d) (windows (openWindow d (run init_registry ops))) \<and>
   (\<forall>w\<in>set (windows (openWindow d (run init_registry ops))).
    \<forall>v\<in>set (windows (openWindow d (run init_registry ops))).
      id_w w = id_w d \<longrightarrow> id_w v \<noteq> id_w d \<longrightarrow> zIndex v < zIndex w) \<and>
   map id_w (windows (run init_registry
       [Open (d1\<lparr>id_w := ''a''\<rparr>), Minimize ''a'', Open (d2\<lparr>id_w := ''a''\<rparr>)])) = [''a''] \<and>
   map isMinimized (windows (run init_registry
       [Open (d1\<lparr>id_w := ''a''\<rparr>), Minimize ''a'', Open (d2\<lparr>id_w := ''a''\<rparr>)])) = [False] \<and>
   map isFocused (windows (run init_registry
       [Open (d1\<lparr>id_w := ''a''\<rparr>), Minimize ''a'', Open (d2\<lparr>id_w := ''a''\<rparr>)])) = [True] \<and>
   distinct (map id_w (windows (run init_registry (map Open ds)))) \<and>
   distinct (map id_w (windows (run init_registry ops)))"
proof -
  have c1: "length (filter (\<lambda>w. id_w w = id_w d) (windows (openWindow d (run init_registry ops)))) = 1"
    using distinct_reachable by (rule count_open)
  have c2: "filter isFocused (windows (openWindow d (run init_registry ops)))
     = filter (\<lambda>w. id_w w = id_w d) (windows (openWindow d (run init_registry ops)))"
    using distinct_reachable by (rule focused_open)
  have c3: "\<forall>w\<in>set (windows (openWindow d (run init_registry ops))).
    \<forall>v\<in>set (windows (openWindow d (run init_registry ops))).
      id_w w = id_w d \<longrightarrow> id_w v \<noteq> id_w d \<longrightarrow> zIndex v < zIndex w"
    using open_highest by blast
  have c4: "map id_w (windows (run init_registry
       [Open (d1\<lparr>id_w := ''a''\<rparr>), Minimize ''a'', Open (d2\<lparr>id_w := ''a''\<rparr>)])) = [''a'']"
    by (simp add: registry_eval)
  have c5: "map isMinimized (windows (run init_registry
       [Open (d1\<lparr>id_w := ''a''\<rparr>), Minimize ''a'', Open (d2\<lparr>id_w := ''a''\<rparr>)])) = [False]"
    by (simp add: registry_eval)
  have c6: "map isFocused (windows (run init_registry
       [Open (d1\<lparr>id_w := ''a''\<rparr>), Minimize ''a'', Open (d2\<lparr>id_w := ''a''\<rparr>)])) = [True]"
    by (simp add: registry_eval)
  have c7: "distinct (map id_w (windows (run init_registry (map Open ds))))"
    by (rule distinct_reachable)
  have c8: "distinct (map id_w (windows (run init_registry ops)))"
    by (rule distinct_reachable)
  from c1 c2 c3 c4 c5 c6 c7 c8 show ?thesis by (intro conjI)
qed

theorem open_guarantees_witness:
  "spread_window win_a 103 True
     \<in> set (windows (openWindow win_a (run init_registry [Open win_a, Open win_b]))) \<and>
   (spread_window win_b 102 False)
     \<in> set (windows (openWindow win_a (run init_registry [Open win_a, Open win_b]))) \<and>
   id_w (spread_window win_a 103 True) = id_w win_a \<and>
   id_w (spread_window win_b 102 False) \<noteq> id_w win_a \<and>
   zIndex (spread_window win_b 102 False) < zIndex (spread_window win_a 103 True) \<and>
   filter isFocused (windows (openWindow win_a (run init_registry [Open win_a, Open win_b])))
     = [spread_window win_a 103 True]"
proof -
  note g = open_guarantees [of win_a "[Open win_a, Open win_b]" win_a win_a "[]"]
  note g2 = g [THEN conjunct2, THEN conjunct1]
  note g3 = g [THEN conjunct2, THEN conjunct2, THEN conjunct1, THEN bspec, THEN bspec, THEN mp, THEN mp]
  have wa: "spread_window win_a 103 True
     \<in> set (windows (openWindow win_a (run init_registry [Open win_a, Open win_b])))"
    by (simp add: registry_eval)
  have wb: "spread_window win_b 102 False
     \<in> set (windows (openWindow win_a (run init_registry [Open win_a, Open win_b])))"
    by (simp add: registry_eval)
  have ia: "id_w (spread_window win_a 103 True) = id_w win_a"
    by (simp add: spread_window_def)
  have ib: "id_w (spread_window win_b 102 False) \<noteq> id_w win_a"
    by (simp add: spread_window_def win_a_def win_b_def)
  have z: "zIndex (spread_window win_b 102 False) < zIndex (spread_window win_a 103 True)"
    by (rule g3 [OF wa wb ia ib])
  have "filter (\<lambda>w. id_w w = id_w win_a)
          (windows (openWindow win_a (run init_registry [Open win_a, Open win_b])))
        = [spread_window win_a 103 True]"
    by (simp add: registry_eval)
  with g2 have f: "filter isFocused
      (windows (openWindow win_a (run init_registry [Open win_a, Open win_b])))
     = [spread_window win_a 103 True]"
    by simp
  from wa wb ia ib z f show ?thesis by (intro conjI)
qed

section \<open>Minimized and focused\<close>

lemma find_Some_props:
  "find P ws = Some e \<Longrightarrow> e \<in> set ws \<and> P e"
  by (induction ws) (auto split: if_splits)

lemma find_the_record:
  assumes "distinct (map id_w ws)" and "find (\<lambda>w. id_w w = i) ws = Some e"
    and "w \<in> set ws" and "id_w w = i"
  shows "w = e"
proof -
  from find_Some_props [OF assms(2)] have "e \<in> set ws" and "id_w e = i" by simp_all
  with assms(1,3,4) show ?thesis
    using same_id_same_record [of ws w e] by simp
qed

lemma calm_map:
  assumes "\<forall>w\<in>set ws. isMinimized w \<longrightarrow> \<not> isFocused w"
    and "\<And>v. v \<in> set ws \<Longrightarrow> \<not> (isMinimized v \<and> isFocused v) \<Longrightarrow>
              \<not> (isMinimized (f v) \<and> isFocused (f v))"
  shows "\<forall>w\<in>set (map f ws). isMinimized w \<longrightarrow> \<not> isFocused w"
proof
  fix w assume "w \<in> set (map f ws)"
  then obtain v where v: "v \<in> set ws" and w: "w = f v" by auto
  from assms(1) v have "\<not> (isMinimized v \<and> isFocused v)" by blast
  from assms(2) [OF v this] w show "isMinimized w \<longrightarrow> \<not> isFocused w" by blast
qed

lemma calm_step:
  assumes d: "distinct (map id_w (windows s))"
    and calm: "\<forall>w\<in>set (windows s). isMinimized w \<longrightarrow> \<not> isFocused w"
    and ok: "permitted opn s"
  shows "\<forall>w\<in>set (windows (step opn s)). isMinimized w \<longrightarrow> \<not> isFocused w"
proof (cases opn)
  case (Open window)
  show ?thesis
  proof (cases "find (\<lambda>w. id_w w = id_w window) (windows s)")
    case None
    with ok Open have nm: "\<not> isMinimized window" by simp
    have "\<forall>w\<in>set (map (\<lambda>w. w\<lparr>isFocused := False\<rparr>) (windows s)). isMinimized w \<longrightarrow> \<not> isFocused w"
      using calm by (rule calm_map) simp
    with nm None Open show ?thesis
      by (simp add: openWindow_def Let_def spread_window_def)
  next
    case (Some e)
    show ?thesis
    proof (cases "isMinimized e")
      case True
      have eq: "windows (step opn s) = map (\<lambda>w. if id_w w = id_w window
                then w\<lparr>isMinimized := False, isFocused := True, zIndex := topZIndex s + 1\<rparr>
                else w\<lparr>isFocused := False\<rparr>) (windows s)"
        using True Some Open by (simp add: openWindow_def Let_def)
      have "\<forall>w\<in>set (map (\<lambda>w. if id_w w = id_w window
                then w\<lparr>isMinimized := False, isFocused := True, zIndex := topZIndex s + 1\<rparr>
                else w\<lparr>isFocused := False\<rparr>) (windows s)). isMinimized w \<longrightarrow> \<not> isFocused w"
        using calm by (rule calm_map) simp
      then show ?thesis unfolding eq .
    next
      case False
      have eq: "windows (step opn s) = map (\<lambda>w. if id_w w = id_w window
                then w\<lparr>isFocused := True, zIndex := topZIndex s + 1\<rparr>
                else w\<lparr>isFocused := False\<rparr>) (windows s)"
        using False Some Open by (simp add: openWindow_def Let_def)
      have "\<forall>w\<in>set (map (\<lambda>w. if id_w w = id_w window
                then w\<lparr>isFocused := True, zIndex := topZIndex s + 1\<rparr>
                else w\<lparr>isFocused := False\<rparr>) (windows s)). isMinimized w \<longrightarrow> \<not> isFocused w"
        using calm
      proof (rule calm_map)
        fix v assume v: "v \<in> set (windows s)"
        show "\<not> (isMinimized ((if id_w v = id_w window
                then v\<lparr>isFocused := True, zIndex := topZIndex s + 1\<rparr>
                else v\<lparr>isFocused := False\<rparr>))
              \<and> isFocused ((if id_w v = id_w window
                then v\<lparr>isFocused := True, zIndex := topZIndex s + 1\<rparr>
                else v\<lparr>isFocused := False\<rparr>)))"
        proof (cases "id_w v = id_w window")
          case True
          from find_the_record [OF d Some v True] False have "\<not> isMinimized v" by simp
          with True show ?thesis by simp
        next
          case False
          then show ?thesis by simp
        qed
      qed
      then show ?thesis unfolding eq .
    qed
  qed
next
  case (Close i)
  with calm show ?thesis by (simp add: closeWindow_def)
next
  case (Minimize i)
  have eq: "windows (step opn s) = map (\<lambda>w. if id_w w = i then w\<lparr>isMinimized := True, isFocused := False\<rparr> else w)
                     (windows s)"
    using Minimize by (simp add: minimizeWindow_def)
  have "\<forall>w\<in>set (map (\<lambda>w. if id_w w = i then w\<lparr>isMinimized := True, isFocused := False\<rparr> else w)
                     (windows s)). isMinimized w \<longrightarrow> \<not> isFocused w"
    using calm by (rule calm_map) simp
  then show ?thesis unfolding eq .
next
  case (Maximize i)
  have eq: "windows (step opn s) = map (\<lambda>w. if id_w w = i then w\<lparr>isMaximized := \<not> isMaximized w\<rparr> else w)
                     (windows s)"
    using Maximize by (simp add: maximizeWindow_def)
  have "\<forall>w\<in>set (map (\<lambda>w. if id_w w = i then w\<lparr>isMaximized := \<not> isMaximized w\<rparr> else w)
                     (windows s)). isMinimized w \<longrightarrow> \<not> isFocused w"
    using calm by (rule calm_map) simp
  then show ?thesis unfolding eq .
next
  case (Restore i)
  have eq: "windows (step opn s) = map (\<lambda>w. if id_w w = i
            then w\<lparr>isMinimized := False, isFocused := True, zIndex := topZIndex s + 1\<rparr>
            else w\<lparr>isFocused := False\<rparr>) (windows s)"
    using Restore by (simp add: restoreWindow_def Let_def)
  have "\<forall>w\<in>set (map (\<lambda>w. if id_w w = i
            then w\<lparr>isMinimized := False, isFocused := True, zIndex := topZIndex s + 1\<rparr>
            else w\<lparr>isFocused := False\<rparr>) (windows s)). isMinimized w \<longrightarrow> \<not> isFocused w"
    using calm by (rule calm_map) simp
  then show ?thesis unfolding eq .
next
  case (Focus i)
  have eq: "windows (step opn s) = map (\<lambda>w. if id_w w = i
            then w\<lparr>isFocused := True, zIndex := topZIndex s + 1\<rparr>
            else w\<lparr>isFocused := False\<rparr>) (windows s)"
    using Focus by (simp add: focusWindow_def Let_def)
  have "\<forall>w\<in>set (map (\<lambda>w. if id_w w = i
            then w\<lparr>isFocused := True, zIndex := topZIndex s + 1\<rparr>
            else w\<lparr>isFocused := False\<rparr>) (windows s)). isMinimized w \<longrightarrow> \<not> isFocused w"
    using calm
  proof (rule calm_map)
    fix v assume v: "v \<in> set (windows s)"
    show "\<not> (isMinimized ((if id_w v = i
                then v\<lparr>isFocused := True, zIndex := topZIndex s + 1\<rparr>
                else v\<lparr>isFocused := False\<rparr>))
              \<and> isFocused ((if id_w v = i
                then v\<lparr>isFocused := True, zIndex := topZIndex s + 1\<rparr>
                else v\<lparr>isFocused := False\<rparr>)))"
    proof (cases "id_w v = i")
      case True
      with v have "i \<in> id_w ` set (windows s)" by blast
      then obtain e where e: "find (\<lambda>w. id_w w = i) (windows s) = Some e"
        using find_Some_iff_id by blast
      with ok Focus have "\<not> isMinimized e" by simp
      with find_the_record [OF d e v True] have "\<not> isMinimized v" by simp
      with True show ?thesis by simp
    next
      case False
      then show ?thesis by simp
    qed
  qed
  then show ?thesis unfolding eq .
next
  case (UpdatePosition i x y)
  have eq: "windows (step opn s) = map (\<lambda>w. if id_w w = i then w\<lparr>x_w := x, y_w := y\<rparr> else w) (windows s)"
    using UpdatePosition by (simp add: updateWindowPosition_def)
  have "\<forall>w\<in>set (map (\<lambda>w. if id_w w = i then w\<lparr>x_w := x, y_w := y\<rparr> else w) (windows s)). isMinimized w \<longrightarrow> \<not> isFocused w"
    using calm by (rule calm_map) simp
  then show ?thesis unfolding eq .
next
  case (UpdateSize i wd ht)
  have eq: "windows (step opn s) = map (\<lambda>w. if id_w w = i then w\<lparr>width := wd, height := ht\<rparr> else w) (windows s)"
    using UpdateSize by (simp add: updateWindowSize_def)
  have "\<forall>w\<in>set (map (\<lambda>w. if id_w w = i then w\<lparr>width := wd, height := ht\<rparr> else w) (windows s)). isMinimized w \<longrightarrow> \<not> isFocused w"
    using calm by (rule calm_map) simp
  then show ?thesis unfolding eq .
qed

lemma calm_run:
  "distinct (map id_w (windows s)) \<Longrightarrow>
   \<forall>w\<in>set (windows s). isMinimized w \<longrightarrow> \<not> isFocused w \<Longrightarrow>
   all_permitted s ops \<Longrightarrow>
   \<forall>w\<in>set (windows (run s ops)). isMinimized w \<longrightarrow> \<not> isFocused w"
proof (induction ops arbitrary: s)
  case Nil
  then show ?case by simp
next
  case (Cons opn ops)
  from Cons.prems(3) have p: "permitted opn s" and rest: "all_permitted (step opn s) ops"
    by simp_all
  from Cons.IH [OF distinct_step [OF Cons.prems(1)] calm_step [OF Cons.prems(1,2) p] rest]
  show ?case by simp
qed

text \<open>
  C2, as the code has it. \<open>focusWindow\<close> writes \<open>isFocused\<close> and \<open>zIndex\<close> only and
  \<open>openWindow\<close> copies \<open>isMinimized\<close> from the descriptor of a new id, so each can
  produce a record that is minimized and focused. In every registry reached from the
  initial one by operations none of which is a \<open>focus\<close> of a minimized record or an
  \<open>open\<close> of a new id with \<open>isMinimized = true\<close>, every minimized record has
  \<open>isFocused = false\<close>.
\<close>

theorem minimized_unfocused_guarded:
  "all_permitted init_registry ops \<Longrightarrow>
     \<forall>w\<in>set (windows (run init_registry ops)). isMinimized w \<longrightarrow> \<not> isFocused w"
  by (rule calm_run) (simp_all add: init_registry_def)

theorem minimized_unfocused_guarded_witness:
  "all_permitted init_registry
     [Open win_a, Open win_b, Minimize ''a'', Focus ''b'', Restore ''a'', Minimize ''b'', Open win_b,
      Minimize ''a''] \<and>
   spread_window (win_a\<lparr>isMinimized := True\<rparr>) 104 False
     \<in> set (windows (run init_registry
         [Open win_a, Open win_b, Minimize ''a'', Focus ''b'', Restore ''a'', Minimize ''b'',
          Open win_b, Minimize ''a''])) \<and>
   isMinimized (spread_window (win_a\<lparr>isMinimized := True\<rparr>) 104 False) \<and>
   \<not> isFocused (spread_window (win_a\<lparr>isMinimized := True\<rparr>) 104 False)"
proof -
  have h: "all_permitted init_registry
     [Open win_a, Open win_b, Minimize ''a'', Focus ''b'', Restore ''a'', Minimize ''b'', Open win_b,
      Minimize ''a'']"
    by (simp add: registry_eval)
  have m: "spread_window (win_a\<lparr>isMinimized := True\<rparr>) 104 False
     \<in> set (windows (run init_registry
         [Open win_a, Open win_b, Minimize ''a'', Focus ''b'', Restore ''a'', Minimize ''b'',
          Open win_b, Minimize ''a'']))"
    by (simp add: registry_eval)
  have mi: "isMinimized (spread_window (win_a\<lparr>isMinimized := True\<rparr>) 104 False)"
    by (simp add: spread_window_def)
  from minimized_unfocused_guarded [OF h, THEN bspec, OF m, THEN mp, OF mi] h m mi
  show ?thesis by (intro conjI)
qed

text \<open>
  The claim C2 as it is written fails. After open \<open>a\<close>, minimize \<open>a\<close>, focus \<open>a\<close> the
  registry is the single record \<open>a\<close>, minimized and focused.
\<close>

theorem minimized_unfocused_counterexample:
  "map id_w (windows (run init_registry [Open win_a, Minimize ''a'', Focus ''a''])) = [''a''] \<and>
   map isMinimized (windows (run init_registry [Open win_a, Minimize ''a'', Focus ''a''])) = [True] \<and>
   map isFocused (windows (run init_registry [Open win_a, Minimize ''a'', Focus ''a''])) = [True]"
  by (simp add: registry_eval)

text \<open>
  The second way: the first \<open>open\<close> of an id with a descriptor that has
  \<open>isMinimized = true\<close>.
\<close>

lemma open_minimized_is_focused:
  "map isMinimized (windows (run init_registry [Open (win_a\<lparr>isMinimized := True\<rparr>)])) = [True] \<and>
   map isFocused (windows (run init_registry [Open (win_a\<lparr>isMinimized := True\<rparr>)])) = [True]"
  by (simp add: registry_eval)

end
